theory Spec2Isabelle
  imports Complex_Main "HOL-Library.Word"
begin

section \<open>Go strings and the standard-library helpers the downloader calls\<close>

text \<open>
  A Go \<open>string\<close> is a sequence of bytes, which is what \<^typ>\<open>string\<close> (a list of 8-bit
  \<^typ>\<open>char\<close>) is. The helpers below follow the Go standard library functions that
  \<open>main.go\<close> calls: \<open>strings.Split\<close>, \<open>strings.Index\<close>, \<open>strings.ToLower\<close>,
  \<open>strings.HasSuffix\<close>, \<open>strings.TrimSuffix\<close>, \<open>strings.Join\<close>, \<open>strconv.ParseInt\<close>,
  \<open>url.PathUnescape\<close>, \<open>filepath.Ext\<close> and \<open>fmt.Sprintf("%d")\<close>.
\<close>

type_synonym byte = "8 word"

definition byte_of :: "char \<Rightarrow> int" where
  "byte_of c = of_char c"

text \<open>\<open>strings.Split(s, sep)\<close> for a one-byte separator: never empty, \<open>[""]\<close> on \<open>""\<close>.\<close>

fun Split :: "string \<Rightarrow> char \<Rightarrow> string list" where
  "Split [] sep = [[]]"
| "Split (c # cs) sep =
     (if c = sep then [] # Split cs sep
      else (case Split cs sep of [] \<Rightarrow> [[c]] | p # ps \<Rightarrow> (c # p) # ps))"

text \<open>\<open>strings.Index(s, sep)\<close> for a one-byte separator: first position, or \<open>-1\<close>.\<close>

definition Index :: "string \<Rightarrow> char \<Rightarrow> int" where
  "Index s sep = (if sep \<in> set s then int (length (takeWhile (\<lambda>c. c \<noteq> sep) s)) else - 1)"

text \<open>
  \<open>strings.ToLower\<close>, byte by byte on the ASCII letters. On a string with bytes above 127
  Go lowers rune by rune; an ASCII byte is always a rune of its own in Go's decoder and
  multi-byte encodings hold no ASCII byte, so the bytes below 128 of the result, which is
  all that the \<open>.pdf\<close> suffix test reads, are the ones computed here.
\<close>

definition lower_byte :: "char \<Rightarrow> char" where
  "lower_byte c = (if 65 \<le> byte_of c \<and> byte_of c \<le> 90 then char_of (byte_of c + 32) else c)"

definition ToLower :: "string \<Rightarrow> string" where
  "ToLower s = map lower_byte s"

definition HasSuffix :: "string \<Rightarrow> string \<Rightarrow> bool" where
  "HasSuffix s suffix =
     (length suffix \<le> length s \<and> drop (length s - length suffix) s = suffix)"

definition TrimSuffix :: "string \<Rightarrow> string \<Rightarrow> string" where
  "TrimSuffix s suffix = (if HasSuffix s suffix then take (length s - length suffix) s else s)"

fun Join :: "string list \<Rightarrow> string \<Rightarrow> string" where
  "Join [] sep = []"
| "Join [x] sep = x"
| "Join (x # y # ys) sep = x @ sep @ Join (y # ys) sep"

definition is_digit :: "char \<Rightarrow> bool" where
  "is_digit c = (48 \<le> byte_of c \<and> byte_of c \<le> 57)"

definition dec_value :: "string \<Rightarrow> int" where
  "dec_value s = foldl (\<lambda>n c. 10 * n + (byte_of c - 48)) 0 s"

text \<open>
  \<open>strconv.ParseUint(s, 10, 64)\<close>: an error (\<open>None\<close>) on the empty string, on any byte
  that is not a decimal digit, and on a value above \<open>2^64 - 1\<close>.
\<close>

definition ParseUint :: "string \<Rightarrow> int option" where
  "ParseUint s =
     (if s = [] then None
      else if \<not> list_all is_digit s then None
      else if 2 ^ 64 \<le> dec_value s then None
      else Some (dec_value s))"

text \<open>
  \<open>strconv.ParseInt(s, 10, 64)\<close>: an optional sign, then \<open>ParseUint\<close>, then the range
  check against the cutoff \<open>2^63\<close>. The callers only test \<open>err == nil\<close>.
\<close>

definition ParseInt :: "string \<Rightarrow> int option" where
  "ParseInt s =
     (case s of
        [] \<Rightarrow> None
      | c # cs \<Rightarrow>
          (let neg = (c = CHR ''-'');
               s' = (if c = CHR ''+'' \<or> c = CHR ''-'' then cs else s)
           in case ParseUint s' of
                None \<Rightarrow> None
              | Some un \<Rightarrow>
                  if \<not> neg \<and> 2 ^ 63 \<le> un then None
                  else if neg \<and> 2 ^ 63 < un then None
                  else Some (if neg then - un else un)))"

definition ishex :: "char \<Rightarrow> bool" where
  "ishex c = (let n = byte_of c in
     (48 \<le> n \<and> n \<le> 57) \<or> (97 \<le> n \<and> n \<le> 102) \<or> (65 \<le> n \<and> n \<le> 70))"

definition unhex :: "char \<Rightarrow> int" where
  "unhex c = (let n = byte_of c in
     if 48 \<le> n \<and> n \<le> 57 then n - 48
     else if 97 \<le> n \<and> n \<le> 102 then n - 97 + 10
     else if 65 \<le> n \<and> n \<le> 70 then n - 65 + 10
     else 0)"

text \<open>
  \<open>url.PathUnescape\<close>: a first pass rejects a \<open>%\<close> that is not followed by two hex
  digits; the second pass replaces each \<open>%XY\<close> by its byte and keeps every other byte
  (a \<open>+\<close> stays a \<open>+\<close> in a path segment).
\<close>

fun escapes_ok :: "string \<Rightarrow> bool" where
  "escapes_ok [] = True"
| "escapes_ok (c # cs) =
     (if c = CHR ''%'' then
        (case cs of
           a # b # rest \<Rightarrow> ishex a \<and> ishex b \<and> escapes_ok rest
         | _ \<Rightarrow> False)
      else escapes_ok cs)"

fun unescape_bytes :: "string \<Rightarrow> string" where
  "unescape_bytes [] = []"
| "unescape_bytes (c # cs) =
     (if c = CHR ''%'' then
        (case cs of
           a # b # rest \<Rightarrow> char_of (unhex a * 16 + unhex b) # unescape_bytes rest
         | _ \<Rightarrow> [])
      else c # unescape_bytes cs)"

definition PathUnescape :: "string \<Rightarrow> string option" where
  "PathUnescape s = (if escapes_ok s then Some (unescape_bytes s) else None)"

text \<open>
  \<open>filepath.Ext\<close> (with \<open>/\<close> as the path separator): the suffix that starts at the last
  dot of the last path element, or \<open>""\<close> when that element has no dot.
\<close>

definition Ext :: "string \<Rightarrow> string" where
  "Ext path =
     (let seg = takeWhile (\<lambda>c. c \<noteq> CHR ''/'') (rev path)
      in if CHR ''.'' \<in> set seg
         then CHR ''.'' # rev (takeWhile (\<lambda>c. c \<noteq> CHR ''.'') seg)
         else [])"

text \<open>\<open>fmt.Sprintf("%d", n)\<close>: the decimal digits, after a minus sign when negative.\<close>

function digits :: "int \<Rightarrow> string" where
  "digits n =
     (if n < 10 then [char_of (48 + n)]
      else digits (n div 10) @ [char_of (48 + n mod 10)])"
  by pat_completeness auto
termination
  by (relation "measure nat") auto

definition Sprintf_d :: "int \<Rightarrow> string" where
  "Sprintf_d n = (if n < 0 then CHR ''-'' # digits (- n) else digits n)"

section \<open>Default file name (\<open>getDefaultFilename\<close> in \<open>main.go\<close>)\<close>

text \<open>
  The name before the numeric segments are removed: the last \<open>/\<close>-separated element of
  the URL, cut at its first \<open>?\<close>, with \<open>.pdf\<close> appended unless it already ends so
  (compared in lower case), replaced by \<open>download_<unix time>.pdf\<close> when nothing but the
  extension is left, and percent-decoded when it decodes. \<open>now\<close> is the value of
  \<open>time.Now().Unix()\<close>.
\<close>

definition baseFilename :: "int \<Rightarrow> string \<Rightarrow> string" where
  "baseFilename now fileUrl =
     (let segments = Split fileUrl (CHR ''/'');
          filename = last segments;
          idx = Index filename (CHR ''?'');
          filename = (if idx \<noteq> - 1 then take (nat idx) filename else filename);
          filename = (if \<not> HasSuffix (ToLower filename) ''.pdf''
                      then filename @ ''.pdf'' else filename);
          filename = (if filename = [] \<or> filename = ''.pdf''
                      then ''download_'' @ Sprintf_d now @ ''.pdf'' else filename)
      in case PathUnescape filename of Some newName \<Rightarrow> newName | None \<Rightarrow> filename)"

text \<open>
  The loop over the \<open>_\<close>-separated items of the name: an empty item and an item that
  \<open>ParseInt\<close> accepts are skipped, the others are kept in order.
\<close>

definition keepItem :: "string \<Rightarrow> bool" where
  "keepItem item = (item \<noteq> [] \<and> ParseInt item = None)"

definition stripNumbers :: "string \<Rightarrow> string" where
  "stripNumbers filename =
     (if CHR ''_'' \<in> set filename then
        (let fex = Ext filename;
             fname = TrimSuffix filename fex;
             nameItems = Split fname (CHR ''_'');
             newNameItems = filter keepItem nameItems
         in Join newNameItems ''_'' @ fex)
      else filename)"

definition getDefaultFilename :: "int \<Rightarrow> string \<Rightarrow> string" where
  "getDefaultFilename now fileUrl = stripNumbers (baseFilename now fileUrl)"

section \<open>Total size from the response (\<open>getTotalFileSize\<close> in \<open>main.go\<close>)\<close>

text \<open>
  The fields of \<open>http.Response\<close> that the downloader reads. \<open>ContentRange\<close> is the value
  of \<open>resp.Header.Get("Content-Range")\<close>, which is \<open>""\<close> when the header is absent;
  \<open>ContentLength\<close> is \<open>-1\<close> when the length is unknown.
\<close>

record response =
  StatusCode :: int
  Status :: string
  ContentRange :: string
  ContentLength :: int

datatype size_error =
    ResumeUnsupported
  | InvalidContentRange string
  | ParseSizeFailed
  | SizeUnknown

text \<open>Go's \<open>int64\<close> addition wraps around in two's complement.\<close>

definition wrap64 :: "int \<Rightarrow> int" where
  "wrap64 x = (x + 2 ^ 63) mod 2 ^ 64 - 2 ^ 63"

definition getTotalFileSize :: "response \<Rightarrow> int \<Rightarrow> size_error + int" where
  "getTotalFileSize resp startPos =
     (if StatusCode resp = 206 then
        (let contentRange = ContentRange resp in
         if contentRange = [] then Inl ResumeUnsupported
         else (case Split contentRange (CHR ''/'') of
                 [p0, p1] \<Rightarrow>
                   (case ParseInt p1 of
                      None \<Rightarrow> Inl ParseSizeFailed
                    | Some totalSize \<Rightarrow> Inr totalSize)
               | _ \<Rightarrow> Inl (InvalidContentRange contentRange)))
      else
        (let contentLength = ContentLength resp in
         if contentLength \<le> 0 then Inl SizeUnknown
         else Inr (wrap64 (contentLength + startPos))))"

section \<open>The request (\<open>downloadPDFWithProgress\<close>, request construction)\<close>

text \<open>
  The transfer descriptor. \<open>Headers\<close> is a Go map; it is listed here in the order in which
  the \<open>range\<close> loop visits it, which Go leaves unspecified.
\<close>

record Config =
  URL :: string
  OutputDir :: string
  OutputPath :: string
  Timeout :: string
  ChunkSize :: int
  Headers :: "(string \<times> string) list"

text \<open>
  \<open>http.Header\<close> keeps one entry per canonical key. \<open>textproto.CanonicalMIMEHeaderKey\<close>
  leaves a key with a byte outside the header-token alphabet unchanged, and otherwise puts
  the first letter and every letter after a hyphen in upper case and the others in lower
  case.
\<close>

definition validHeaderFieldByte :: "char \<Rightarrow> bool" where
  "validHeaderFieldByte c = (let n = byte_of c in
     (48 \<le> n \<and> n \<le> 57) \<or> (97 \<le> n \<and> n \<le> 122) \<or> (65 \<le> n \<and> n \<le> 90) \<or>
     n \<in> {33, 35, 36, 37, 38, 39, 42, 43, 45, 46, 94, 95, 96, 124, 126})"

fun canon_bytes :: "bool \<Rightarrow> string \<Rightarrow> string" where
  "canon_bytes upper [] = []"
| "canon_bytes upper (c # cs) =
     (let n = byte_of c;
          c' = (if upper \<and> 97 \<le> n \<and> n \<le> 122 then char_of (n - 32)
                else if \<not> upper \<and> 65 \<le> n \<and> n \<le> 90 then char_of (n + 32)
                else c)
      in c' # canon_bytes (c' = CHR ''-'') cs)"

definition CanonicalMIMEHeaderKey :: "string \<Rightarrow> string" where
  "CanonicalMIMEHeaderKey s = (if list_all validHeaderFieldByte s then canon_bytes True s else s)"

type_synonym header = "string \<rightharpoonup> string"

definition Header_Set :: "header \<Rightarrow> string \<Rightarrow> string \<Rightarrow> header" where
  "Header_Set h k v = h(CanonicalMIMEHeaderKey k \<mapsto> v)"

definition Header_Get :: "header \<Rightarrow> string \<Rightarrow> string" where
  "Header_Get h k = (case h (CanonicalMIMEHeaderKey k) of None \<Rightarrow> [] | Some v \<Rightarrow> v)"

definition getDefaultHttpHeaders :: "(string \<times> string) list" where
  "getDefaultHttpHeaders =
     [(''Origin'', ''https://basic.smartedu.cn''),
      (''Referer'', ''https://basic.smartedu.cn/''),
      (''Priority'', ''u=1, i''),
      (''User-Agent'', ''Mozilla/5.0 (Windows NT 10.0; Win64; x64) AppleWebKit/537.36 (KHTML, like Gecko) Chrome/142.0.0.0 Safari/537.36'')]"

record request =
  req_url :: string
  req_header :: header

text \<open>
  The request for a transfer that resumes at \<open>startPos\<close>: the caller's headers, then each
  default header whose key is still empty, then \<open>Range: bytes=<startPos>-\<close> when
  \<open>startPos > 0\<close>.
\<close>

definition buildRequest :: "Config \<Rightarrow> int \<Rightarrow> request" where
  "buildRequest config startPos =
     (let h = fold (\<lambda>(k, v) h. Header_Set h k v) (Headers config) Map.empty;
          h = fold (\<lambda>(k, v) h. if Header_Get h k = [] then Header_Set h k v else h)
                getDefaultHttpHeaders h;
          h = (if 0 < startPos
               then Header_Set h ''Range'' (''bytes='' @ Sprintf_d startPos @ ''-'')
               else h)
      in \<lparr>req_url = URL config, req_header = h\<rparr>)"

section \<open>The transfer loop (\<open>downloadPDFWithProgress\<close>)\<close>

text \<open>
  \<open>float64(downloadedSize) / float64(totalSize) * 100\<close>. The quotient is taken in the
  reals (no rounding); a zero divisor gives what IEEE 754 gives: an infinity, or
  not-a-number for \<open>0 / 0\<close>.
\<close>

datatype float64 = Finite real | PosInf | NegInf | NaN

definition percentOf :: "int \<Rightarrow> int \<Rightarrow> float64" where
  "percentOf d t =
     (if t = 0 then (if d = 0 then NaN else if 0 < d then PosInf else NegInf)
      else Finite (real_of_int d / real_of_int t * 100))"

text \<open>One call of the progress callback: \<open>progressCallback(percent, downloaded, total)\<close>.\<close>

record sample =
  percent :: float64
  downloaded :: int
  total_size :: int

definition mkSample :: "int \<Rightarrow> int \<Rightarrow> sample" where
  "mkSample downloadedSize totalSize =
     \<lparr>percent = percentOf downloadedSize totalSize, downloaded = downloadedSize,
      total_size = totalSize\<rparr>"

datatype download_error =
    CreateFileFailed
  | CreateRequestFailed
  | RequestFailed
  | ServerError int string
  | GetSizeFailed size_error
  | SeekFailed
  | Cancelled
  | WriteFailed
  | ReadFailed

text \<open>
  How a run ends: \<open>Ok\<close> is \<open>return nil\<close>, \<open>Failed e\<close> is \<open>return fmt.Errorf(...)\<close> at the
  place \<open>e\<close> names, \<open>Panicked\<close> is the run-time panic of \<open>make([]byte, n)\<close> on a negative
  \<open>n\<close>, and \<open>Running\<close> says that the loop has used up the iterations it was given without
  returning.
\<close>

datatype outcome = Ok | Failed download_error | Panicked | Running

datatype read_error = EOF | ReadError

text \<open>
  What the surroundings do in one iteration of the loop: whether \<open>ctx.Done()\<close> is ready,
  the bytes and the error that \<open>resp.Body.Read\<close> returns, whether \<open>outputFile.Write\<close>
  fails (and after how many bytes), and whether the 200 ms ticker has a tick waiting.
\<close>

record iteration =
  ctx_done :: bool
  read_data :: "byte list"
  read_err :: "read_error option"
  write_fails :: "nat option"
  tick :: bool

record loop_state =
  content :: "byte list"
  pos :: nat
  downloadedSize :: int
  emitted :: "sample list"

text \<open>Writing at a file position: a gap beyond the end is filled with zero bytes.\<close>

definition write_at :: "byte list \<Rightarrow> nat \<Rightarrow> byte list \<Rightarrow> byte list" where
  "write_at c p d = take p c @ replicate (p - length c) 0 @ d @ drop (p + length d) c"

text \<open>
  The body of \<open>if n > 0\<close>: the write, \<open>downloadedSize += int64(n)\<close> and the sample on a
  tick. The flag is \<open>False\<close> when the write failed.
\<close>

definition write_chunk ::
  "bool \<Rightarrow> int \<Rightarrow> iteration \<Rightarrow> byte list \<Rightarrow> loop_state \<Rightarrow> bool \<times> loop_state" where
  "write_chunk cb totalSize it buf st =
     (case write_fails it of
        Some m \<Rightarrow>
          (False, st\<lparr>content := write_at (content st) (pos st) (take m buf),
                     pos := pos st + length (take m buf)\<rparr>)
      | None \<Rightarrow>
          (let d = wrap64 (downloadedSize st + int (length buf));
               st' = st\<lparr>content := write_at (content st) (pos st) buf,
                         pos := pos st + length buf,
                         downloadedSize := d\<rparr>
           in (True, if tick it \<and> cb then st'\<lparr>emitted := emitted st' @ [mkSample d totalSize]\<rparr>
                     else st')))"

fun transfer_loop ::
  "bool \<Rightarrow> nat \<Rightarrow> int \<Rightarrow> iteration list \<Rightarrow> loop_state \<Rightarrow> outcome \<times> loop_state" where
  "transfer_loop cb chunk totalSize [] st = (Running, st)"
| "transfer_loop cb chunk totalSize (it # its) st =
     (if ctx_done it then (Failed Cancelled, st)
      else
        (let buf = take chunk (read_data it);
             r = (if buf \<noteq> [] then write_chunk cb totalSize it buf st else (True, st))
         in if \<not> fst r then (Failed WriteFailed, snd r)
            else (case read_err it of
                    Some EOF \<Rightarrow>
                      (Ok, if cb
                           then (snd r)\<lparr>emitted := emitted (snd r) @
                                  [mkSample (downloadedSize (snd r)) totalSize]\<rparr>
                           else snd r)
                  | Some ReadError \<Rightarrow> (Failed ReadFailed, snd r)
                  | None \<Rightarrow> transfer_loop cb chunk totalSize its (snd r))))"

text \<open>
  The surroundings of one run: the destination file before the run (\<open>None\<close> when the path
  does not exist), which of the system calls fail, the response of the server (\<open>None\<close> when
  \<open>client.Do\<close> returns an error) and the iterations of the loop.
\<close>

record env =
  fs_file :: "byte list option"
  open_fails :: bool
  stat_fails :: bool
  new_request_fails :: bool
  do_result :: "response option"
  seek_fails :: bool
  body :: "iteration list"

text \<open>
  What a run leaves behind: how it ended, the destination file, the position of the file
  handle, the calls of the progress callback in order, and the requests that were sent.
\<close>

record run_result =
  outcome :: outcome
  dest_file :: "byte list option"
  file_offset :: nat
  samples :: "sample list"
  requests :: "request list"

definition opened :: "env \<Rightarrow> byte list" where
  "opened e = (case fs_file e of None \<Rightarrow> [] | Some c \<Rightarrow> c)"

text \<open>\<open>startPos\<close>: the size of the opened file when \<open>Stat\<close> succeeds and it is positive.\<close>

definition startPos :: "env \<Rightarrow> int" where
  "startPos e =
     (if \<not> stat_fails e \<and> 0 < int (length (opened e)) then int (length (opened e)) else 0)"

definition stopped :: "env \<Rightarrow> download_error \<Rightarrow> request list \<Rightarrow> run_result" where
  "stopped e err reqs =
     \<lparr>outcome = Failed err, dest_file = Some (opened e), file_offset = 0, samples = [], requests = reqs\<rparr>"

text \<open>
  \<open>downloadPDFWithProgress\<close> with \<open>testMode = false\<close> (the constant of \<open>config.go\<close>).
  \<open>cb\<close> says whether \<open>progressCallback\<close> is not \<open>nil\<close>.
\<close>

definition downloadPDFWithProgress :: "env \<Rightarrow> Config \<Rightarrow> bool \<Rightarrow> run_result" where
  "downloadPDFWithProgress e config cb =
     (if open_fails e then
        \<lparr>outcome = Failed CreateFileFailed, dest_file = fs_file e, file_offset = 0, samples = [],
         requests = []\<rparr>
      else if new_request_fails e then stopped e CreateRequestFailed []
      else
        (let req = buildRequest config (startPos e) in
         case do_result e of
           None \<Rightarrow> stopped e RequestFailed [req]
         | Some resp \<Rightarrow>
             if StatusCode resp < 200 \<or> 300 \<le> StatusCode resp
             then stopped e (ServerError (StatusCode resp) (Status resp)) [req]
             else
               (case getTotalFileSize resp (startPos e) of
                  Inl err \<Rightarrow> stopped e (GetSizeFailed err) [req]
                | Inr totalSize \<Rightarrow>
                    if seek_fails e then stopped e SeekFailed [req]
                    else if ChunkSize config < 0 then
                      \<lparr>outcome = Panicked, dest_file = Some (opened e),
                       file_offset = nat (startPos e), samples = [], requests = [req]\<rparr>
                    else
                      (let r = transfer_loop cb (nat (ChunkSize config)) totalSize (body e)
                                 \<lparr>content = opened e, pos = nat (startPos e),
                                  downloadedSize = startPos e, emitted = []\<rparr>
                       in \<lparr>outcome = fst r, dest_file = Some (content (snd r)),
                           file_offset = pos (snd r), samples = emitted (snd r),
                           requests = [req]\<rparr>))))"

definition downloadPDF :: "env \<Rightarrow> Config \<Rightarrow> run_result" where
  "downloadPDF e config = downloadPDFWithProgress e config False"

section \<open>Progress records and the connection pool (\<open>web.go\<close>)\<close>

text \<open>
  \<open>DownloadProgress\<close>. \<open>TaskStatus\<close> is the field \<open>Status\<close> and \<open>TaskOutputPath\<close> the field
  \<open>OutputPath\<close> (renamed apart from the fields of the response and of the configuration).
  \<open>ErrorMsg\<close> holds the error whose text \<open>err.Error()\<close> the source stores, \<open>None\<close> for
  the empty string.
\<close>

record DownloadProgress =
  TaskID :: string
  Filename :: string
  Percent :: float64
  Downloaded :: int
  Total :: int
  TaskStatus :: string
  TaskOutputPath :: string
  ErrorMsg :: "download_error option"

text \<open>
  A WebSocket connection of the pool \<open>ws.clients\<close>: its identity, whether writing to it
  fails, whether it has been closed, and the records it has received so far.
\<close>

record conn =
  cid :: nat
  broken :: bool
  closed :: bool
  received :: "DownloadProgress list"




text \<open>
  \<open>handleWebSocket\<close> registers the connection, reads until \<open>ReadMessage\<close> returns an
  error, which it does once the connection is closed, and then runs its deferred
  \<open>delete(ws.clients, conn)\<close>.
\<close>

definition handleWebSocket_register :: "conn list \<Rightarrow> conn \<Rightarrow> conn list" where
  "handleWebSocket_register clients c = filter (\<lambda>x. cid x \<noteq> cid c) clients @ [c]"



text \<open>
  The task of \<open>handleDownload\<close>: the initial record, the update made by the progress
  callback, and the record after the download has returned.
\<close>

definition initialProgress :: "string \<Rightarrow> string \<Rightarrow> string \<Rightarrow> DownloadProgress" where
  "initialProgress taskID filename outputPath =
     \<lparr>TaskID = taskID, Filename = filename, Percent = Finite 0, Downloaded = 0, Total = 0,
      TaskStatus = ''pending'', TaskOutputPath = outputPath, ErrorMsg = None\<rparr>"

definition onProgress :: "DownloadProgress \<Rightarrow> sample \<Rightarrow> DownloadProgress" where
  "onProgress progress s =
     progress\<lparr>Percent := percent s, Downloaded := downloaded s, Total := total_size s,
              TaskStatus := ''downloading''\<rparr>"

fun progressUpdates :: "DownloadProgress \<Rightarrow> sample list \<Rightarrow> DownloadProgress list" where
  "progressUpdates progress [] = []"
| "progressUpdates progress (s # ss) =
     onProgress progress s # progressUpdates (onProgress progress s) ss"

definition terminalRecord :: "DownloadProgress \<Rightarrow> outcome \<Rightarrow> DownloadProgress list" where
  "terminalRecord progress out =
     (case out of
        Ok \<Rightarrow> [progress\<lparr>TaskStatus := ''completed'', Percent := Finite 100\<rparr>]
      | Failed err \<Rightarrow>
          [progress\<lparr>TaskStatus := ''failed'', Percent := Finite 0, ErrorMsg := Some err\<rparr>]
      | _ \<Rightarrow> [])"

text \<open>
  The records that \<open>handleDownload\<close> hands to \<open>broadcastProgress\<close> for one task, in
  order: the initial one, one per call of the callback, and the terminal one once the
  download has returned.
\<close>

definition handleDownload :: "DownloadProgress \<Rightarrow> env \<Rightarrow> Config \<Rightarrow> DownloadProgress list" where
  "handleDownload progress e downloadConfig =
     (let r = downloadPDFWithProgress e downloadConfig True
      in progress # progressUpdates progress (samples r) @
         terminalRecord (foldl onProgress progress (samples r)) (outcome r))"

section \<open>Vocabulary for the statements\<close>

text \<open>The bytes that one iteration takes from the body: at most a buffer's worth.\<close>

definition chunk_of :: "nat \<Rightarrow> iteration \<Rightarrow> byte list" where
  "chunk_of chunk it = take chunk (read_data it)"

text \<open>All the bytes that a sequence of iterations takes from the body.\<close>

definition delivered :: "nat \<Rightarrow> iteration list \<Rightarrow> byte list" where
  "delivered chunk its = concat (map (chunk_of chunk) its)"

text \<open>The write of an iteration succeeds, or there is nothing to write.\<close>

definition writes_ok :: "nat \<Rightarrow> iteration \<Rightarrow> bool" where
  "writes_ok chunk it = (chunk_of chunk it = [] \<or> write_fails it = None)"

text \<open>An iteration after which the loop goes round again.\<close>

definition passes :: "nat \<Rightarrow> iteration \<Rightarrow> bool" where
  "passes chunk it =
     (\<not> ctx_done it \<and> read_err it = None \<and> (chunk_of chunk it = [] \<or> write_fails it = None))"


text \<open>The state after an iteration whose write succeeds.\<close>

definition step_state :: "bool \<Rightarrow> nat \<Rightarrow> int \<Rightarrow> iteration \<Rightarrow> loop_state \<Rightarrow> loop_state" where
  "step_state cb chunk totalSize it st =
     (if chunk_of chunk it \<noteq> [] then snd (write_chunk cb totalSize it (chunk_of chunk it) st)
      else st)"


text \<open>
  The run gets as far as the loop, with \<open>totalSize\<close> as the total: the file opens, the
  request is built and answered with a 2xx status from which the total can be read, the
  seek succeeds and the buffer can be allocated.
\<close>

definition transfers :: "env \<Rightarrow> Config \<Rightarrow> int \<Rightarrow> bool" where
  "transfers e config totalSize =
     (\<not> open_fails e \<and> \<not> new_request_fails e \<and> \<not> seek_fails e \<and> 0 \<le> ChunkSize config \<and>
      (case do_result e of
         None \<Rightarrow> False
       | Some resp \<Rightarrow>
           200 \<le> StatusCode resp \<and> StatusCode resp < 300 \<and>
           getTotalFileSize resp (startPos e) = Inr totalSize))"

definition initial_state :: "env \<Rightarrow> loop_state" where
  "initial_state e =
     \<lparr>content = opened e, pos = nat (startPos e), downloadedSize = startPos e, emitted = []\<rparr>"



text \<open>The four bytes \<open>.pdf\<close>, in either case of the letters.\<close>

definition pdf_ext :: "string \<Rightarrow> bool" where
  "pdf_ext x =
     (\<exists>a b c d. x = [a, b, c, d] \<and> byte_of a = 46 \<and> (byte_of b = 112 \<or> byte_of b = 80) \<and>
        (byte_of c = 100 \<or> byte_of c = 68) \<and> (byte_of d = 102 \<or> byte_of d = 70))"

section \<open>Concrete transfers\<close>

text \<open>
  Small inputs on which the statements below are evaluated: a descriptor with a buffer of
  four bytes, a few responses, and the surroundings of a run that opens a given file,
  gets a given response and performs given iterations.
\<close>

definition example_config :: Config where
  "example_config =
     \<lparr>URL = ''https://example.com/book.pdf'', OutputDir = ''output'',
      OutputPath = ''output/book.pdf'', Timeout = ''30s'', ChunkSize = 4,
      Headers = [(''accept'', ''application/pdf'')]\<rparr>"

definition reads :: "byte list \<Rightarrow> read_error option \<Rightarrow> bool \<Rightarrow> iteration" where
  "reads d err t = \<lparr>ctx_done = False, read_data = d, read_err = err, write_fails = None, tick = t\<rparr>"


definition env_of :: "byte list option \<Rightarrow> response option \<Rightarrow> iteration list \<Rightarrow> env" where
  "env_of f resp its =
     \<lparr>fs_file = f, open_fails = False, stat_fails = False, new_request_fails = False,
      do_result = resp, seek_fails = False, body = its\<rparr>"


definition partial_3_of_10 :: response where
  "partial_3_of_10 =
     \<lparr>StatusCode = 206, Status = ''206 Partial Content'', ContentRange = ''bytes 3-9/10'',
      ContentLength = 7\<rparr>"

definition partial_3_of_5 :: response where
  "partial_3_of_5 =
     \<lparr>StatusCode = 206, Status = ''206 Partial Content'', ContentRange = ''bytes 3-4/5'',
      ContentLength = 4\<rparr>"




definition forbidden :: response where
  "forbidden =
     \<lparr>StatusCode = 403, Status = ''403 Forbidden'', ContentRange = [], ContentLength = 0\<rparr>"

definition example_progress :: DownloadProgress where
  "example_progress = initialProgress ''1700000000000000000'' ''book.pdf'' ''output/book.pdf''"

definition resume_body :: "iteration list" where
  "resume_body =
     [reads [4, 5, 6, 7] None True, reads [8, 9, 10] None False, reads [] (Some EOF) False]"



definition long_body :: "iteration list" where
  "long_body = [reads [4, 5, 6, 7] None False, reads [] (Some EOF) False]"



section \<open>Lemmas about the helpers and the loop\<close>

lemma Split_nonempty: "Split s sep \<noteq> []"
  by (induction s) (auto split: list.splits)

lemma Split_no_sep: "sep \<notin> set s \<Longrightarrow> Split s sep = [s]"
  by (induction s) auto




lemma write_at_length: "length (write_at c p d) = max (length c) (p + length d)"
  by (auto simp: write_at_def)

lemma write_at_Nil: "p \<le> length c \<Longrightarrow> write_at c p [] = c"
  by (simp add: write_at_def)

lemma write_at_end: "write_at c (length c) d = c @ d"
  by (simp add: write_at_def)

lemma write_at_write_at:
  "write_at (write_at c p a) (p + length a) b = write_at c p (a @ b)"
proof -
  have "drop (p + length a + length b) c = drop (p + (length a + length b)) c"
    by (simp add: add.assoc)
  moreover have "p + length a - length c \<le> p - length c \<Longrightarrow> length c \<le> p \<Longrightarrow> a = []"
    by (cases a) auto
  ultimately show ?thesis
    by (auto simp: write_at_def min_def ac_simps)
qed

lemma write_at_take: "take p (write_at c p d) = take p (c @ replicate (p - length c) 0)"
  by (simp add: write_at_def)

lemma loop_Cons_pass:
  "passes chunk it \<Longrightarrow>
   transfer_loop cb chunk totalSize (it # its) st =
   transfer_loop cb chunk totalSize its (step_state cb chunk totalSize it st)"
  by (auto simp: passes_def step_state_def chunk_of_def write_chunk_def Let_def)



lemma loop_Cons_done:
  "ctx_done it \<Longrightarrow> transfer_loop cb chunk totalSize (it # its) st = (Failed Cancelled, st)"
  by simp

lemma loop_Cons_write_fails:
  "\<not> ctx_done it \<Longrightarrow> chunk_of chunk it \<noteq> [] \<Longrightarrow> write_fails it = Some m \<Longrightarrow>
   transfer_loop cb chunk totalSize (it # its) st =
     (Failed WriteFailed,
      st\<lparr>content := write_at (content st) (pos st) (take m (chunk_of chunk it)),
         pos := pos st + length (take m (chunk_of chunk it))\<rparr>)"
  by (simp add: chunk_of_def write_chunk_def Let_def)

lemma loop_Cons_eof:
  "\<not> ctx_done it \<Longrightarrow> writes_ok chunk it \<Longrightarrow> read_err it = Some EOF \<Longrightarrow>
   transfer_loop cb chunk totalSize (it # its) st =
     (Ok, if cb
          then (step_state cb chunk totalSize it st)
                 \<lparr>emitted := emitted (step_state cb chunk totalSize it st) @
                    [mkSample (downloadedSize (step_state cb chunk totalSize it st)) totalSize]\<rparr>
          else step_state cb chunk totalSize it st)"
  by (auto simp: writes_ok_def step_state_def chunk_of_def write_chunk_def Let_def)

lemma loop_Cons_read_fails:
  "\<not> ctx_done it \<Longrightarrow> writes_ok chunk it \<Longrightarrow> read_err it = Some ReadError \<Longrightarrow>
   transfer_loop cb chunk totalSize (it # its) st =
     (Failed ReadFailed, step_state cb chunk totalSize it st)"
  by (auto simp: writes_ok_def step_state_def chunk_of_def write_chunk_def Let_def)

declare transfer_loop.simps(2) [simp del]

lemma iteration_cases:
  obtains (cancelled) "ctx_done it"
  | (write_fails) m where "\<not> ctx_done it" "chunk_of chunk it \<noteq> []" "write_fails it = Some m"
  | (eof) "\<not> ctx_done it" "writes_ok chunk it" "read_err it = Some EOF"
  | (read_fails) "\<not> ctx_done it" "writes_ok chunk it" "read_err it = Some ReadError"
  | (pass) "passes chunk it"
proof (cases "ctx_done it")
  case True
  then show ?thesis by (rule cancelled)
next
  case nd: False
  show ?thesis
  proof (cases "writes_ok chunk it")
    case False
    then obtain m where "chunk_of chunk it \<noteq> []" "write_fails it = Some m"
      by (auto simp: writes_ok_def)
    with nd show ?thesis by (rule write_fails)
  next
    case w: True
    show ?thesis
    proof (cases "read_err it")
      case None
      with nd w have "passes chunk it" by (simp add: passes_def writes_ok_def)
      then show ?thesis by (rule pass)
    next
      case (Some x)
      then show ?thesis using nd w eof read_fails by (cases x) auto
    qed
  qed
qed

lemma step_state_content:
  "writes_ok chunk it \<Longrightarrow> pos st \<le> length (content st) \<Longrightarrow>
   content (step_state cb chunk totalSize it st) =
     write_at (content st) (pos st) (chunk_of chunk it)"
  by (auto simp: writes_ok_def step_state_def write_chunk_def Let_def write_at_Nil)

lemma step_state_pos:
  "writes_ok chunk it \<Longrightarrow>
   pos (step_state cb chunk totalSize it st) = pos st + length (chunk_of chunk it)"
  by (auto simp: writes_ok_def step_state_def write_chunk_def Let_def)



lemma passes_writes_ok: "passes chunk it \<Longrightarrow> writes_ok chunk it"
  by (simp add: passes_def writes_ok_def)

lemma delivered_Cons: "delivered chunk (it # its) = chunk_of chunk it @ delivered chunk its"
  by (simp add: delivered_def)


lemma loop_file:
  "pos st \<le> length (content st) \<Longrightarrow>
   \<exists>w rest. content (snd (transfer_loop cb chunk totalSize its st)) =
                write_at (content st) (pos st) w \<and>
             pos (snd (transfer_loop cb chunk totalSize its st)) = pos st + length w \<and>
             delivered chunk its = w @ rest"
proof (induction its arbitrary: st)
  case Nil
  then show ?case by (simp add: delivered_def write_at_Nil)
next
  case (Cons it its)
  let ?c = "chunk_of chunk it"
  let ?s = "step_state cb chunk totalSize it st"
  have nil: "content st = write_at (content st) (pos st) []"
    using Cons.prems by (simp add: write_at_Nil)
  have one: "\<exists>w rest. content ?s = write_at (content st) (pos st) w \<and>
      pos ?s = pos st + length w \<and> delivered chunk (it # its) = w @ rest"
    if "writes_ok chunk it"
    using that Cons.prems
    by (intro exI [of _ ?c] exI [of _ "delivered chunk its"])
       (simp add: step_state_content step_state_pos delivered_Cons)
  show ?case
  proof (cases rule: iteration_cases [where it = it and chunk = chunk])
    case cancelled
    show ?thesis using nil unfolding loop_Cons_done [OF cancelled] by force
  next
    case (write_fails m)
    have "?c = take m ?c @ drop m ?c" by simp
    then have "delivered chunk (it # its) = take m ?c @ (drop m ?c @ delivered chunk its)"
      by (simp only: delivered_Cons append_assoc [symmetric])
    then show ?thesis
      unfolding loop_Cons_write_fails [OF write_fails] by force
  next
    case eof
    show ?thesis using one [OF eof(2)] unfolding loop_Cons_eof [OF eof] by (cases cb) simp_all
  next
    case read_fails
    show ?thesis using one [OF read_fails(2)] unfolding loop_Cons_read_fails [OF read_fails] by simp
  next
    case pass
    then have w: "writes_ok chunk it" by (rule passes_writes_ok)
    have "pos ?s \<le> length (content ?s)"
      using w Cons.prems
      by (simp add: step_state_content step_state_pos write_at_length)
    from Cons.IH [OF this] obtain w' rest where
      a: "content (snd (transfer_loop cb chunk totalSize its ?s)) = write_at (content ?s) (pos ?s) w'"
      and b: "pos (snd (transfer_loop cb chunk totalSize its ?s)) = pos ?s + length w'"
      and c: "delivered chunk its = w' @ rest"
      by blast
    have "content (snd (transfer_loop cb chunk totalSize its ?s)) =
        write_at (content st) (pos st) (?c @ w')"
      using a w Cons.prems
      by (simp add: step_state_content step_state_pos write_at_write_at)
    moreover have "pos (snd (transfer_loop cb chunk totalSize its ?s)) = pos st + length (?c @ w')"
      using b w by (simp add: step_state_pos)
    moreover have "delivered chunk (it # its) = (?c @ w') @ rest"
      using c by (simp add: delivered_Cons)
    ultimately show ?thesis
      unfolding loop_Cons_pass [OF pass] by blast
  qed
qed
















lemma startPos_le: "nat (startPos e) \<le> length (opened e)"
  by (simp add: startPos_def)

lemma startPos_stat_ok: "\<not> stat_fails e \<Longrightarrow> startPos e = int (length (opened e))"
  by (simp add: startPos_def)

lemma initial_state_inv: "pos (initial_state e) \<le> length (content (initial_state e))"
  by (simp add: initial_state_def startPos_le)

lemma run_transfers:
  assumes "transfers e config t"
  shows "downloadPDFWithProgress e config cb =
    \<lparr>outcome = fst (transfer_loop cb (nat (ChunkSize config)) t (body e) (initial_state e)),
     dest_file = Some (content (snd (transfer_loop cb (nat (ChunkSize config)) t (body e)
                   (initial_state e)))),
     file_offset = pos (snd (transfer_loop cb (nat (ChunkSize config)) t (body e)
                   (initial_state e))),
     samples = emitted (snd (transfer_loop cb (nat (ChunkSize config)) t (body e)
                   (initial_state e))),
     requests = [buildRequest config (startPos e)]\<rparr>"
  using assms
  by (auto simp: transfers_def downloadPDFWithProgress_def initial_state_def Let_def
      split: option.splits)

lemma run_cases:
  obtains (no_file) "open_fails e"
      "downloadPDFWithProgress e config cb =
         \<lparr>outcome = Failed CreateFileFailed, dest_file = fs_file e, file_offset = 0,
          samples = [], requests = []\<rparr>"
  | (early) out off reqs where "\<not> open_fails e"
      "downloadPDFWithProgress e config cb =
         \<lparr>outcome = out, dest_file = Some (opened e), file_offset = off, samples = [],
          requests = reqs\<rparr>"
      "out \<noteq> Ok" "out \<noteq> Running" "off = 0 \<or> off = nat (startPos e)"
  | (loop) t where "transfers e config t"
proof (cases "\<exists>t. transfers e config t")
  case True
  then show ?thesis using loop by blast
next
  case nt: False
  show ?thesis
  proof (cases "open_fails e")
    case True
    then show ?thesis using no_file by (simp add: downloadPDFWithProgress_def)
  next
    case False
    have "\<exists>out off reqs. downloadPDFWithProgress e config cb =
         \<lparr>outcome = out, dest_file = Some (opened e), file_offset = off, samples = [],
          requests = reqs\<rparr> \<and> out \<noteq> Ok \<and> out \<noteq> Running \<and> (off = 0 \<or> off = nat (startPos e))"
      using nt False
      by (auto simp: transfers_def downloadPDFWithProgress_def stopped_def Let_def
          split: option.splits sum.splits)
    then show ?thesis using early False by blast
  qed
qed






lemma run_file:
  assumes "\<not> open_fails e"
  shows "\<exists>w rest. dest_file (downloadPDFWithProgress e config cb) =
             Some (write_at (opened e) (nat (startPos e)) w) \<and>
           delivered (nat (ChunkSize config)) (body e) = w @ rest"
proof (cases rule: run_cases [of e config cb])
  case no_file
  with assms show ?thesis by simp
next
  case (early out off reqs)
  have "opened e = write_at (opened e) (nat (startPos e)) []"
    by (simp add: write_at_Nil startPos_le)
  then show ?thesis unfolding early(2) by force
next
  case (loop t)
  from loop_file [OF initial_state_inv [of e], where cb = cb
      and chunk = "nat (ChunkSize config)" and totalSize = t and its = "body e"]
  show ?thesis
    unfolding run_transfers [OF loop] by (simp add: initial_state_def) blast
qed

















lemma byte_of_range: "0 \<le> byte_of c \<and> byte_of c < 256"
proof -
  have "byte_of c = byte_of c mod 256" by (simp add: byte_of_def)
  moreover have "0 \<le> byte_of c mod 256 \<and> byte_of c mod 256 < 256" by simp
  ultimately show ?thesis by simp
qed

lemma byte_of_inj: "byte_of c = byte_of d \<Longrightarrow> c = d"
  by (simp add: byte_of_def)

lemma byte_of_lower:
  "byte_of (lower_byte c) =
     (if 65 \<le> byte_of c \<and> byte_of c \<le> 90 then byte_of c + 32 else byte_of c)"
proof (cases "65 \<le> byte_of c \<and> byte_of c \<le> 90")
  case True
  then have "(byte_of c + 32) mod 256 = byte_of c + 32" by simp
  then have "byte_of (char_of (byte_of c + 32)) = byte_of c + 32"
    by (simp add: byte_of_def)
  with True show ?thesis by (simp add: lower_byte_def)
next
  case False
  then show ?thesis by (auto simp: lower_byte_def)
qed

lemma length_four: "length x = 4 \<Longrightarrow> \<exists>a b c d. x = [a, b, c, d]"
  by (auto simp: length_Suc_conv eval_nat_numeral)

text \<open>The last four bytes of a name that ends in \<open>.pdf\<close> when lowered.\<close>

lemma pdf_suffix_split:
  assumes "HasSuffix (ToLower s) ''.pdf''"
  obtains p a b c d where "s = p @ [a, b, c, d]"
    "byte_of a = 46" "byte_of b = 112 \<or> byte_of b = 80"
    "byte_of c = 100 \<or> byte_of c = 68" "byte_of d = 102 \<or> byte_of d = 70"
proof -
  from assms have len: "4 \<le> length s" and dr: "drop (length s - 4) (ToLower s) = ''.pdf''"
    by (simp_all add: HasSuffix_def ToLower_def eval_nat_numeral)
  let ?x = "drop (length s - 4) s"
  have lx: "length ?x = 4" using len by simp
  then obtain a b c d where x: "?x = [a, b, c, d]"
    using length_four by blast
  have "map lower_byte ?x = ''.pdf''"
    using dr by (simp add: ToLower_def drop_map)
  then have l: "lower_byte a = CHR ''.''" "lower_byte b = CHR ''p''" "lower_byte c = CHR ''d''"
    "lower_byte d = CHR ''f''"
    unfolding x by simp_all
  have v: "byte_of (CHR ''.'') = 46" "byte_of (CHR ''p'') = 112" "byte_of (CHR ''d'') = 100"
    "byte_of (CHR ''f'') = 102"
    by (simp_all add: byte_of_def)
  have "byte_of a = 46"
    using byte_of_lower [of a] unfolding l v by (auto split: if_splits)
  moreover have "byte_of b = 112 \<or> byte_of b = 80"
    using byte_of_lower [of b] unfolding l v by (auto split: if_splits)
  moreover have "byte_of c = 100 \<or> byte_of c = 68"
    using byte_of_lower [of c] unfolding l v by (auto split: if_splits)
  moreover have "byte_of d = 102 \<or> byte_of d = 70"
    using byte_of_lower [of d] unfolding l v by (auto split: if_splits)
  moreover have "s = take (length s - 4) s @ [a, b, c, d]"
    using append_take_drop_id [of "length s - 4" s] unfolding x by simp
  ultimately show ?thesis using that by blast
qed

lemma pdf_suffix_join:
  assumes "byte_of a = 46" "byte_of b = 112 \<or> byte_of b = 80"
    "byte_of c = 100 \<or> byte_of c = 68" "byte_of d = 102 \<or> byte_of d = 70"
  shows "HasSuffix (ToLower (p @ [a, b, c, d])) ''.pdf''"
proof -
  have v: "byte_of (CHR ''.'') = 46" "byte_of (CHR ''p'') = 112" "byte_of (CHR ''d'') = 100"
    "byte_of (CHR ''f'') = 102"
    by (simp_all add: byte_of_def)
  have "lower_byte a = CHR ''.''"
    using assms(1) byte_of_lower [of a] v(1) by (intro byte_of_inj) simp
  moreover have "lower_byte b = CHR ''p''"
    using assms(2) byte_of_lower [of b] v(2) by (intro byte_of_inj) auto
  moreover have "lower_byte c = CHR ''d''"
    using assms(3) byte_of_lower [of c] v(3) by (intro byte_of_inj) auto
  moreover have "lower_byte d = CHR ''f''"
    using assms(4) byte_of_lower [of d] v(4) by (intro byte_of_inj) auto
  ultimately show ?thesis
    by (simp add: HasSuffix_def ToLower_def)
qed


lemma pdf_suffix_iff: "HasSuffix (ToLower s) ''.pdf'' \<longleftrightarrow> (\<exists>p x. s = p @ x \<and> pdf_ext x)"
proof
  assume "HasSuffix (ToLower s) ''.pdf''"
  then obtain p a b c d where "s = p @ [a, b, c, d]"
    "byte_of a = 46" "byte_of b = 112 \<or> byte_of b = 80"
    "byte_of c = 100 \<or> byte_of c = 68" "byte_of d = 102 \<or> byte_of d = 70"
    by (rule pdf_suffix_split)
  then have "s = p @ [a, b, c, d] \<and> pdf_ext [a, b, c, d]"
    unfolding pdf_ext_def by blast
  then show "\<exists>p x. s = p @ x \<and> pdf_ext x" by blast
next
  assume "\<exists>p x. s = p @ x \<and> pdf_ext x"
  then show "HasSuffix (ToLower s) ''.pdf''"
    unfolding pdf_ext_def using pdf_suffix_join by blast
qed

lemma byte_values:
  "byte_of (CHR ''.'') = 46" "byte_of (CHR ''/'') = 47" "byte_of (CHR ''%'') = 37"
  "byte_of (CHR ''_'') = 95" "byte_of (CHR ''?'') = 63"
  by (simp_all add: byte_of_def)

lemma pdf_ext_facts:
  assumes "pdf_ext x"
  shows "length x = 4" "\<exists>y. x = CHR ''.'' # y \<and> CHR ''.'' \<notin> set y \<and> CHR ''/'' \<notin> set y"
    "CHR ''%'' \<notin> set x" "CHR ''_'' \<notin> set x" "x \<noteq> []" "\<not> ishex (hd x)"
proof -
  from assms obtain a b c d where x: "x = [a, b, c, d]" and v: "byte_of a = 46"
    "byte_of b = 112 \<or> byte_of b = 80" "byte_of c = 100 \<or> byte_of c = 68"
    "byte_of d = 102 \<or> byte_of d = 70"
    unfolding pdf_ext_def by blast
  have ne: "q \<noteq> r" if "byte_of q \<noteq> byte_of r" for q r
    using that by auto
  have a: "a = CHR ''.''"
    using v(1) byte_values(1) by (intro byte_of_inj) simp
  show "length x = 4" "x \<noteq> []" by (simp_all add: x)
  show "\<exists>y. x = CHR ''.'' # y \<and> CHR ''.'' \<notin> set y \<and> CHR ''/'' \<notin> set y"
    unfolding x a using v(2,3,4) byte_values(1,2)
    by (intro exI [of _ "[b, c, d]"]) (auto intro!: ne)
  show "CHR ''%'' \<notin> set x"
    unfolding x using v byte_values(3) by (auto intro!: ne)
  show "CHR ''_'' \<notin> set x"
    unfolding x using v byte_values(4) by (auto intro!: ne)
  show "\<not> ishex (hd x)"
    unfolding x using v(1) by (simp add: ishex_def)
qed

lemma unescape_no_percent: "CHR ''%'' \<notin> set s \<Longrightarrow> escapes_ok s \<and> unescape_bytes s = s"
  by (induction s) auto

lemma unescape_keeps_suffix:
  assumes "CHR ''%'' \<notin> set x" "x \<noteq> []" "\<not> ishex (hd x)"
  shows "escapes_ok s \<Longrightarrow> s = p @ x \<Longrightarrow> \<exists>p'. unescape_bytes s = p' @ x"
proof (induction s arbitrary: p rule: escapes_ok.induct)
  case 1
  with assms(2) show ?case by simp
next
  case (2 c cs)
  show ?case
  proof (cases p)
    case Nil
    with 2(4) have "c # cs = x" by simp
    with assms(1) have "unescape_bytes (c # cs) = [] @ x"
      using unescape_no_percent [of x] by simp
    then show ?thesis by blast
  next
    case (Cons c' p1)
    with 2(4) have c: "c' = c" and cs: "cs = p1 @ x" by simp_all
    show ?thesis
    proof (cases "c = CHR ''%''")
      case False
      with 2(3) have "escapes_ok cs" by simp
      from 2(2) [OF False this cs] obtain p' where "unescape_bytes cs = p' @ x" by blast
      with False have "unescape_bytes (c # cs) = (c # p') @ x" by simp
      then show ?thesis by blast
    next
      case True
      with 2(3) obtain a b rest where r: "cs = a # b # rest" "ishex a" "ishex b" "escapes_ok rest"
        by (auto split: list.splits)
      have "\<exists>p2. p1 = a # b # p2"
      proof (cases p1)
        case Nil
        with cs r(1) have "x = a # b # rest" by simp
        then have "hd x = a" by simp
        with r(2) assms(3) show ?thesis by simp
      next
        case (Cons a' p1')
        show ?thesis
        proof (cases p1')
          case Nil
          with Cons cs r(1) have "x = b # rest" by simp
          then have "hd x = b" by simp
          with r(3) assms(3) show ?thesis by simp
        next
          case (Cons b' p2)
          with \<open>p1 = a' # p1'\<close> cs r(1) show ?thesis by simp
        qed
      qed
      then obtain p2 where p2: "p1 = a # b # p2" by blast
      with cs r(1) have "rest = p2 @ x" by simp
      from 2(1) [OF True r(1) refl r(4) this] obtain p' where "unescape_bytes rest = p' @ x"
        by blast
      with True r(1) have "unescape_bytes (c # cs) = (char_of (unhex a * 16 + unhex b) # p') @ x"
        by simp
      then show ?thesis by blast
    qed
  qed
qed

lemma Ext_suffix:
  assumes "CHR ''.'' \<notin> set y" "CHR ''/'' \<notin> set y"
  shows "Ext (p @ CHR ''.'' # y) = CHR ''.'' # y"
proof -
  let ?ns = "\<lambda>c. c \<noteq> CHR ''/''"
  let ?nd = "\<lambda>c. c \<noteq> CHR ''.''"
  have r: "rev (p @ CHR ''.'' # y) = rev y @ CHR ''.'' # rev p" by simp
  have "takeWhile ?ns (rev y @ CHR ''.'' # rev p) = rev y @ takeWhile ?ns (CHR ''.'' # rev p)"
    by (rule takeWhile_append2) (use assms(2) in auto)
  then have t: "takeWhile ?ns (rev y @ CHR ''.'' # rev p) =
      rev y @ CHR ''.'' # takeWhile ?ns (rev p)"
    by simp
  have "takeWhile ?nd (rev y @ CHR ''.'' # takeWhile ?ns (rev p)) =
      rev y @ takeWhile ?nd (CHR ''.'' # takeWhile ?ns (rev p))"
    by (rule takeWhile_append2) (use assms(1) in auto)
  then have u: "takeWhile ?nd (rev y @ CHR ''.'' # takeWhile ?ns (rev p)) = rev y"
    by simp
  show ?thesis
    unfolding Ext_def r t Let_def u by simp
qed

lemma HasSuffix_append: "HasSuffix (p @ x) x"
  by (simp add: HasSuffix_def)

lemma TrimSuffix_append: "TrimSuffix (p @ x) x = p"
  by (simp add: TrimSuffix_def HasSuffix_append)

lemma pdf_ext_literal: "pdf_ext ''.pdf''"
  by (simp add: pdf_ext_def byte_of_def)

lemma baseFilename_pdf: "\<exists>p x. baseFilename now fileUrl = p @ x \<and> pdf_ext x"
proof -
  define f1 where "f1 = last (Split fileUrl (CHR ''/''))"
  define f2 where "f2 = (if Index f1 (CHR ''?'') \<noteq> - 1
    then take (nat (Index f1 (CHR ''?''))) f1 else f1)"
  define f3 where "f3 = (if \<not> HasSuffix (ToLower f2) ''.pdf'' then f2 @ ''.pdf'' else f2)"
  define f4 where "f4 = (if f3 = [] \<or> f3 = ''.pdf''
    then ''download_'' @ Sprintf_d now @ ''.pdf'' else f3)"
  have b: "baseFilename now fileUrl = (case PathUnescape f4 of Some n \<Rightarrow> n | None \<Rightarrow> f4)"
    unfolding baseFilename_def Let_def f4_def f3_def f2_def f1_def ..
  have "\<exists>p x. f3 = p @ x \<and> pdf_ext x"
  proof (cases "HasSuffix (ToLower f2) ''.pdf''")
    case True
    then show ?thesis unfolding f3_def by (simp add: pdf_suffix_iff)
  next
    case False
    then have "f3 = f2 @ ''.pdf''" by (simp add: f3_def)
    with pdf_ext_literal show ?thesis by blast
  qed
  then have "\<exists>p x. f4 = p @ x \<and> pdf_ext x"
  proof (cases "f3 = [] \<or> f3 = ''.pdf''")
    case True
    then have "f4 = (''download_'' @ Sprintf_d now) @ ''.pdf''" by (simp add: f4_def)
    with pdf_ext_literal show ?thesis by blast
  next
    case False
    then show "\<exists>p x. f3 = p @ x \<and> pdf_ext x \<Longrightarrow> ?thesis" by (simp add: f4_def)
  qed
  then obtain p x where f4: "f4 = p @ x" and x: "pdf_ext x" by blast
  show ?thesis
  proof (cases "escapes_ok f4")
    case False
    then show ?thesis unfolding b using f4 x by (auto simp: PathUnescape_def)
  next
    case True
    from unescape_keeps_suffix [OF pdf_ext_facts(3,5,6) [OF x] True f4]
    obtain p' where "unescape_bytes f4 = p' @ x" by blast
    with True x show ?thesis unfolding b by (auto simp: PathUnescape_def)
  qed
qed

lemma stripNumbers_pdf:
  assumes "pdf_ext x"
  shows "stripNumbers (p @ x) =
    (if CHR ''_'' \<in> set p then Join (filter keepItem (Split p (CHR ''_''))) ''_'' @ x else p @ x)"
proof -
  from pdf_ext_facts(2) [OF assms] obtain y where
    y: "x = CHR ''.'' # y" "CHR ''.'' \<notin> set y" "CHR ''/'' \<notin> set y"
    by blast
  have e: "Ext (p @ x) = x"
    unfolding y(1) using y(2,3) by (rule Ext_suffix)
  have u: "CHR ''_'' \<in> set (p @ x) \<longleftrightarrow> CHR ''_'' \<in> set p"
    using pdf_ext_facts(4) [OF assms] by simp
  show ?thesis
    unfolding stripNumbers_def u e Let_def TrimSuffix_append ..
qed

lemma dec_value_bound:
  "list_all is_digit s \<Longrightarrow> 0 \<le> n \<Longrightarrow>
   0 \<le> foldl (\<lambda>n c. 10 * n + (byte_of c - 48)) n s \<and>
   foldl (\<lambda>n c. 10 * n + (byte_of c - 48)) n s < (n + 1) * 10 ^ length s"
proof (induction s arbitrary: n)
  case Nil
  then show ?case by simp
next
  case (Cons c cs)
  let ?d = "byte_of c - 48"
  from Cons.prems have c: "is_digit c" and r: "list_all is_digit cs"
    by simp_all
  from c have d: "0 \<le> ?d" "?d \<le> 9"
    by (simp_all add: is_digit_def)
  have n': "0 \<le> 10 * n + ?d" using Cons.prems(2) d by simp
  from Cons.IH [OF r n'] have
    a: "0 \<le> foldl (\<lambda>n c. 10 * n + (byte_of c - 48)) (10 * n + ?d) cs"
    and b: "foldl (\<lambda>n c. 10 * n + (byte_of c - 48)) (10 * n + ?d) cs <
      (10 * n + ?d + 1) * 10 ^ length cs"
    by simp_all
  have "(10 * n + ?d + 1) * 10 ^ length cs \<le> (10 * n + 10) * (10::int) ^ length cs"
    using d by (intro mult_right_mono) simp_all
  also have "\<dots> = (n + 1) * 10 ^ length (c # cs)" by (simp add: algebra_simps)
  finally have le: "(10 * n + ?d + 1) * 10 ^ length cs \<le> (n + 1) * 10 ^ length (c # cs)" .
  from b le have "foldl (\<lambda>n c. 10 * n + (byte_of c - 48)) (10 * n + ?d) cs <
      (n + 1) * 10 ^ length (c # cs)"
    by (rule less_le_trans)
  with a show ?case by (simp only: foldl.simps)
qed

lemma ParseInt_digits:
  assumes "s \<noteq> []" "list_all is_digit s" "length s \<le> 18"
  shows "ParseInt s = Some (dec_value s)"
proof -
  from dec_value_bound [OF assms(2), of 0] have
    v: "0 \<le> dec_value s" "dec_value s < 10 ^ length s"
    by (simp_all add: dec_value_def)
  have "(10::int) ^ length s \<le> 10 ^ 18"
    using assms(3) by (intro power_increasing) simp_all
  with v(2) have lt: "dec_value s < 10 ^ 18" by simp
  then have u: "ParseUint s = Some (dec_value s)"
    using assms(1,2) by (simp add: ParseUint_def)
  from assms(1) obtain c cs where s: "s = c # cs" by (cases s) auto
  with assms(2) have "is_digit c" by simp
  then have "c \<noteq> CHR ''+''" "c \<noteq> CHR ''-''"
    by (auto simp: is_digit_def byte_of_def)
  then show ?thesis
    using u lt unfolding s ParseInt_def by (simp add: Let_def)
qed

lemma Split_length: "length (Split s sep) = Suc (length (filter (\<lambda>c. c = sep) s))"
  by (induction s) (auto split: list.splits)

lemma Split_last: "last (Split s sep) = rev (takeWhile (\<lambda>c. c \<noteq> sep) (rev s))"
proof (induction s)
  case Nil
  then show ?case by simp
next
  case (Cons c cs)
  let ?P = "\<lambda>c. c \<noteq> sep"
  have ne: "Split cs sep \<noteq> []" by (rule Split_nonempty)
  show ?case
  proof (cases "sep \<in> set cs")
    case False
    then have all: "\<forall>x\<in>set (rev cs). ?P x" by auto
    have s: "Split cs sep = [cs]" using False by (rule Split_no_sep)
    have t: "takeWhile ?P (rev cs @ [d]) = rev cs @ takeWhile ?P [d]" for d
      by (rule takeWhile_append2) (use all in auto)
    show ?thesis by (cases "c = sep") (simp_all add: s t)
  next
    case True
    then have t: "takeWhile ?P (rev cs @ [d]) = takeWhile ?P (rev cs)" for d
      by (intro takeWhile_append1 [of sep]) auto
    from True have "filter (\<lambda>c. c = sep) cs \<noteq> []"
      by (simp add: filter_empty_conv)
    then have "2 \<le> length (Split cs sep)"
      unfolding Split_length by (cases "filter (\<lambda>c. c = sep) cs") simp_all
    then obtain p q ps where s: "Split cs sep = p # q # ps"
      by (cases "Split cs sep"; cases "tl (Split cs sep)") auto
    show ?thesis
      using Cons.IH by (cases "c = sep") (simp_all add: s t)
  qed
qed

lemma takeWhile_stop: "\<not> P x \<Longrightarrow> takeWhile P (l @ x # q) = takeWhile P l"
  by (induction l) simp_all

lemma cut_query:
  "(if Index s (CHR ''?'') \<noteq> - 1 then take (nat (Index s (CHR ''?''))) s else s) =
     takeWhile (\<lambda>c. c \<noteq> CHR ''?'') s"
proof (cases "CHR ''?'' \<in> set s")
  case True
  then show ?thesis
    using takeWhile_eq_take [of "\<lambda>c. c \<noteq> CHR ''?''" s] by (simp add: Index_def)
next
  case False
  then have tw: "takeWhile (\<lambda>c. c \<noteq> CHR ''?'') s = s"
    by (intro takeWhile_eq_all_conv [THEN iffD2]) auto
  from False have i: "Index s (CHR ''?'') = - 1" by (simp add: Index_def)
  show ?thesis unfolding i tw by simp
qed

text \<open>The name as the code cuts it out of the URL: after the last \<open>/\<close>, before the first \<open>?\<close>.\<close>

lemma baseFilename_cut:
  "baseFilename now fileUrl =
     (let f2 = takeWhile (\<lambda>c. c \<noteq> CHR ''?'')
                 (rev (takeWhile (\<lambda>c. c \<noteq> CHR ''/'') (rev fileUrl)));
          f3 = (if \<not> HasSuffix (ToLower f2) ''.pdf'' then f2 @ ''.pdf'' else f2);
          f4 = (if f3 = [] \<or> f3 = ''.pdf'' then ''download_'' @ Sprintf_d now @ ''.pdf'' else f3)
      in case PathUnescape f4 of Some newName \<Rightarrow> newName | None \<Rightarrow> f4)"
  unfolding baseFilename_def Let_def cut_query Split_last ..

lemma baseFilename_query:
  assumes "CHR ''/'' \<notin> set q"
  shows "baseFilename now (fileUrl @ CHR ''?'' # q) = baseFilename now fileUrl"
proof -
  let ?ns = "\<lambda>c. c \<noteq> CHR ''/''"
  have "takeWhile ?ns (rev (CHR ''?'' # q) @ rev fileUrl) =
      rev (CHR ''?'' # q) @ takeWhile ?ns (rev fileUrl)"
    by (rule takeWhile_append2) (use assms in auto)
  then have "rev (takeWhile ?ns (rev (fileUrl @ CHR ''?'' # q))) =
      rev (takeWhile ?ns (rev fileUrl)) @ CHR ''?'' # q"
    by simp
  then have "takeWhile (\<lambda>c. c \<noteq> CHR ''?'') (rev (takeWhile ?ns (rev (fileUrl @ CHR ''?'' # q)))) =
      takeWhile (\<lambda>c. c \<noteq> CHR ''?'') (rev (takeWhile ?ns (rev fileUrl)))"
    by (simp add: takeWhile_stop)
  then show ?thesis unfolding baseFilename_cut by simp
qed

lemma baseFilename_plain:
  assumes "name \<noteq> []" "name \<noteq> ''.pdf''" "CHR ''/'' \<notin> set name" "CHR ''?'' \<notin> set name"
    "CHR ''%'' \<notin> set name"
  shows "baseFilename now (dir @ CHR ''/'' # name) =
    (if HasSuffix (ToLower name) ''.pdf'' then name else name @ ''.pdf'')"
proof -
  let ?ns = "\<lambda>c. c \<noteq> CHR ''/''"
  let ?f3 = "if HasSuffix (ToLower name) ''.pdf'' then name else name @ ''.pdf''"
  have "takeWhile ?ns (rev name @ CHR ''/'' # rev dir) = rev name @ takeWhile ?ns (CHR ''/'' # rev dir)"
    by (rule takeWhile_append2) (use assms(3) in auto)
  then have a: "rev (takeWhile ?ns (rev (dir @ CHR ''/'' # name))) = name" by simp
  have b: "takeWhile (\<lambda>c. c \<noteq> CHR ''?'') name = name"
    by (intro takeWhile_eq_all_conv [THEN iffD2]) (use assms(4) in auto)
  have c: "?f3 \<noteq> []" "?f3 \<noteq> ''.pdf''" using assms(1,2) by auto
  have "CHR ''%'' \<notin> set ?f3" using assms(5) by auto
  then have d: "PathUnescape ?f3 = Some ?f3"
    using unescape_no_percent [of ?f3] by (simp add: PathUnescape_def)
  show ?thesis
    unfolding baseFilename_cut a b Let_def using c d by (auto split: if_splits)
qed

section \<open>The response and the total size\<close>




text \<open>
  C5: when the server answers with a status outside 200..299, the run fails with
  \<open>ServerError\<close> carrying the code and the status text, after the one request it sent;
  the file holds what it held when it was opened, the file position is still 0, the
  callback is never called, and the records of the task are the pending one followed by
  the failed one.
\<close>

theorem non_2xx_fails:
  assumes "\<not> open_fails e" "\<not> new_request_fails e" "do_result e = Some resp"
    and "StatusCode resp < 200 \<or> 300 \<le> StatusCode resp"
  shows "outcome (downloadPDFWithProgress e config cb) =
           Failed (ServerError (StatusCode resp) (Status resp)) \<and>
         requests (downloadPDFWithProgress e config cb) = [buildRequest config (startPos e)] \<and>
         dest_file (downloadPDFWithProgress e config cb) = Some (opened e) \<and>
         file_offset (downloadPDFWithProgress e config cb) = 0 \<and>
         samples (downloadPDFWithProgress e config cb) = [] \<and>
         handleDownload progress e config =
           [progress,
            progress\<lparr>TaskStatus := ''failed'', Percent := Finite 0,
              ErrorMsg := Some (ServerError (StatusCode resp) (Status resp))\<rparr>]"
proof -
  have "downloadPDFWithProgress e config cb =
      stopped e (ServerError (StatusCode resp) (Status resp)) [buildRequest config (startPos e)]"
    for cb
    using assms by (auto simp: downloadPDFWithProgress_def)
  then show ?thesis
    by (simp add: stopped_def handleDownload_def terminalRecord_def)
qed

theorem non_2xx_fails_witness:
  "outcome (downloadPDFWithProgress (env_of (Some [1, 2, 3]) (Some forbidden) [])
      example_config True) = Failed (ServerError 403 ''403 Forbidden'') \<and>
   length (requests (downloadPDFWithProgress (env_of (Some [1, 2, 3]) (Some forbidden) [])
      example_config True)) = 1 \<and>
   dest_file (downloadPDFWithProgress (env_of (Some [1, 2, 3]) (Some forbidden) [])
      example_config True) = Some [1, 2, 3] \<and>
   file_offset (downloadPDFWithProgress (env_of (Some [1, 2, 3]) (Some forbidden) [])
      example_config True) = 0 \<and>
   samples (downloadPDFWithProgress (env_of (Some [1, 2, 3]) (Some forbidden) [])
      example_config True) = [] \<and>
   map TaskStatus (handleDownload example_progress (env_of (Some [1, 2, 3]) (Some forbidden) [])
      example_config) = [''pending'', ''failed'']"
proof -
  let ?e = "env_of (Some [1, 2, 3]) (Some forbidden) []"
  have h: "\<not> open_fails ?e" "\<not> new_request_fails ?e" "do_result ?e = Some forbidden"
    "StatusCode forbidden < 200 \<or> 300 \<le> StatusCode forbidden"
    by (simp_all add: env_of_def forbidden_def)
  have o: "opened ?e = [1, 2, 3]" by (simp add: opened_def env_of_def)
  show ?thesis
    using non_2xx_fails [OF h, of example_config True example_progress] o
    by (simp add: forbidden_def example_progress_def initialProgress_def)
qed


section \<open>Resuming\<close>



section \<open>The final sample\<close>





section \<open>What a run does to the file\<close>

text \<open>
  C9 (amended): a run changes nothing but the destination file. When the file cannot be
  opened it is left as it was. Otherwise the file after the run is the opened file with
  some bytes \<open>w\<close> written at the resume offset, where \<open>w\<close> is an initial part of what the
  body delivered: the file is never shorter than before, its content below the resume
  offset is unchanged, and it ends at most at the resume offset plus the number of bytes
  delivered, so within any bound that the delivered bytes respect. The loop does not
  compare the byte count with the total.
\<close>

theorem writes_after_resume_point:
  "(open_fails e \<longrightarrow> dest_file (downloadPDFWithProgress e config cb) = fs_file e) \<and>
   (\<not> open_fails e \<longrightarrow>
      (\<exists>w rest f.
         dest_file (downloadPDFWithProgress e config cb) = Some f \<and>
         f = write_at (opened e) (nat (startPos e)) w \<and>
         delivered (nat (ChunkSize config)) (body e) = w @ rest \<and>
         length (opened e) \<le> length f \<and>
         take (nat (startPos e)) f = take (nat (startPos e)) (opened e) \<and>
         (\<not> stat_fails e \<longrightarrow> f = opened e @ w) \<and>
         (\<forall>bound. length (opened e) \<le> bound \<and>
            nat (startPos e) + length (delivered (nat (ChunkSize config)) (body e)) \<le> bound \<longrightarrow>
            length f \<le> bound)))"
proof (intro conjI impI)
  assume "open_fails e"
  then show "dest_file (downloadPDFWithProgress e config cb) = fs_file e"
    by (simp add: downloadPDFWithProgress_def)
next
  assume "\<not> open_fails e"
  from run_file [OF this, of config cb] obtain w rest where
    f: "dest_file (downloadPDFWithProgress e config cb) =
          Some (write_at (opened e) (nat (startPos e)) w)"
    and d: "delivered (nat (ChunkSize config)) (body e) = w @ rest"
    by blast
  let ?f = "write_at (opened e) (nat (startPos e)) w"
  have l: "length (opened e) \<le> length ?f"
    by (simp add: write_at_length)
  have t: "take (nat (startPos e)) ?f = take (nat (startPos e)) (opened e)"
    using startPos_le [of e] by (simp add: write_at_take)
  have a: "?f = opened e @ w" if "\<not> stat_fails e"
    using that by (simp add: startPos_stat_ok write_at_end)
  have b: "length ?f \<le> bound"
    if "length (opened e) \<le> bound \<and>
      nat (startPos e) + length (delivered (nat (ChunkSize config)) (body e)) \<le> bound"
    for bound
    using that d by (simp add: write_at_length)
  from f d l t a b
  show "\<exists>w rest f.
         dest_file (downloadPDFWithProgress e config cb) = Some f \<and>
         f = write_at (opened e) (nat (startPos e)) w \<and>
         delivered (nat (ChunkSize config)) (body e) = w @ rest \<and>
         length (opened e) \<le> length f \<and>
         take (nat (startPos e)) f = take (nat (startPos e)) (opened e) \<and>
         (\<not> stat_fails e \<longrightarrow> f = opened e @ w) \<and>
         (\<forall>bound. length (opened e) \<le> bound \<and>
            nat (startPos e) + length (delivered (nat (ChunkSize config)) (body e)) \<le> bound \<longrightarrow>
            length f \<le> bound)"
    by blast
qed

theorem writes_after_resume_point_witness:
  "dest_file (downloadPDFWithProgress (env_of (Some [1, 2, 3]) (Some partial_3_of_10) resume_body)
      example_config True) = Some [1, 2, 3, 4, 5, 6, 7, 8, 9, 10] \<and>
   (\<exists>w rest. [1, 2, 3, 4, 5, 6, 7, 8, 9, 10] = [1, 2, 3] @ w \<and>
      [4, 5, 6, 7, 8, 9, 10 :: byte] = w @ rest) \<and>
   dest_file (downloadPDFWithProgress
      ((env_of (Some [1, 2, 3]) (Some partial_3_of_10) resume_body)\<lparr>open_fails := True\<rparr>)
      example_config True) = Some [1, 2, 3]"
proof -
  let ?e = "env_of (Some [1, 2, 3]) (Some partial_3_of_10) resume_body"
  let ?r = "downloadPDFWithProgress ?e example_config True"
  have h: "\<not> open_fails ?e" "\<not> stat_fails ?e" "open_fails (?e\<lparr>open_fails := True\<rparr>)"
    by (simp_all add: env_of_def)
  have v: "dest_file ?r = Some [1, 2, 3, 4, 5, 6, 7, 8, 9, 10]" "opened ?e = [1, 2, 3]"
    "delivered (nat (ChunkSize example_config)) (body ?e) = [4, 5, 6, 7, 8, 9, 10]"
    "fs_file (?e\<lparr>open_fails := True\<rparr>) = Some [1, 2, 3]"
    by code_simp+
  from writes_after_resume_point [of ?e example_config True] h(1) obtain w rest f where
    a: "dest_file ?r = Some f" "delivered (nat (ChunkSize example_config)) (body ?e) = w @ rest"
      "\<not> stat_fails ?e \<longrightarrow> f = opened ?e @ w"
    by blast
  from a(1) v(1) have "f = [1, 2, 3, 4, 5, 6, 7, 8, 9, 10]" by simp
  with a(2,3) h(2) v(2,3) have
    "[1, 2, 3, 4, 5, 6, 7, 8, 9, 10] = [1, 2, 3] @ w \<and> [4, 5, 6, 7, 8, 9, 10 :: byte] = w @ rest"
    by simp
  then have b: "\<exists>w rest. [1, 2, 3, 4, 5, 6, 7, 8, 9, 10] = [1, 2, 3] @ w \<and>
      [4, 5, 6, 7, 8, 9, 10 :: byte] = w @ rest"
    by blast
  from writes_after_resume_point [of "?e\<lparr>open_fails := True\<rparr>" example_config True]
    h(3) v(4)
  have c: "dest_file (downloadPDFWithProgress (?e\<lparr>open_fails := True\<rparr>) example_config True) =
      Some [1, 2, 3]"
    by simp
  from v(1) b c show ?thesis by (intro conjI)
qed

theorem write_past_total_counterexample:
  "getTotalFileSize partial_3_of_5 3 = Inr 5 \<and>
   outcome (downloadPDFWithProgress (env_of (Some [1, 2, 3]) (Some partial_3_of_5) long_body)
      example_config True) = Ok \<and>
   dest_file (downloadPDFWithProgress (env_of (Some [1, 2, 3]) (Some partial_3_of_5) long_body)
      example_config True) = Some [1, 2, 3, 4, 5, 6, 7] \<and>
   map downloaded (samples (downloadPDFWithProgress
      (env_of (Some [1, 2, 3]) (Some partial_3_of_5) long_body) example_config True)) = [7] \<and>
   map total_size (samples (downloadPDFWithProgress
      (env_of (Some [1, 2, 3]) (Some partial_3_of_5) long_body) example_config True)) = [5]"
  by code_simp

section \<open>Cancellation\<close>



section \<open>The sequence of samples\<close>





section \<open>The percentage\<close>





section \<open>Broadcasting to the connection pool\<close>



section \<open>The default file name\<close>

text \<open>
  C10 (amended): for every URL the derived name ends in \<open>.pdf\<close>, compared without regard
  to case. What follows a \<open>?\<close> in the last element of the path is dropped. A last element
  without \<open>/\<close>, \<open>?\<close>, \<open>%\<close> and \<open>_\<close> is returned as it is when it ends in \<open>.pdf\<close> and with
  \<open>.pdf\<close> appended otherwise. When the name contains an underscore, its part before the
  extension is split at the underscores, the items that are empty or that \<open>ParseInt\<close>
  reads as a 64-bit integer are dropped, among them every item of at most 18 decimal
  digits, and the others are joined again before the extension.
\<close>

theorem default_filename:
  "HasSuffix (ToLower (getDefaultFilename now fileUrl)) ''.pdf'' \<and>
   (CHR ''/'' \<notin> set q \<longrightarrow>
      getDefaultFilename now (fileUrl @ CHR ''?'' # q) = getDefaultFilename now fileUrl) \<and>
   (name \<noteq> [] \<and> name \<noteq> ''.pdf'' \<and> CHR ''/'' \<notin> set name \<and> CHR ''?'' \<notin> set name \<and>
    CHR ''%'' \<notin> set name \<and> CHR ''_'' \<notin> set name \<longrightarrow>
      getDefaultFilename now (dir @ CHR ''/'' # name) =
        (if HasSuffix (ToLower name) ''.pdf'' then name else name @ ''.pdf'')) \<and>
   (CHR ''_'' \<in> set (baseFilename now fileUrl) \<longrightarrow>
      (\<exists>stem x.
         baseFilename now fileUrl = stem @ x \<and> pdf_ext x \<and>
         getDefaultFilename now fileUrl =
           Join (filter keepItem (Split stem (CHR ''_''))) ''_'' @ x \<and>
         (\<forall>i\<in>set (filter keepItem (Split stem (CHR ''_''))). i \<noteq> [] \<and> ParseInt i = None) \<and>
         (\<forall>i\<in>set (Split stem (CHR ''_'')). list_all is_digit i \<and> length i \<le> 18 \<longrightarrow>
            i \<notin> set (filter keepItem (Split stem (CHR ''_''))))))"
proof -
  from baseFilename_pdf [of now fileUrl] obtain stem x where
    b: "baseFilename now fileUrl = stem @ x" and x: "pdf_ext x"
    by blast
  note sn = stripNumbers_pdf [OF x, of stem]
  have g: "getDefaultFilename now fileUrl = stripNumbers (stem @ x)"
    by (simp add: getDefaultFilename_def b)
  have "\<exists>p. getDefaultFilename now fileUrl = p @ x"
    unfolding g sn by auto
  with x have c1: "HasSuffix (ToLower (getDefaultFilename now fileUrl)) ''.pdf''"
    unfolding pdf_suffix_iff by blast
  have c2: "getDefaultFilename now (fileUrl @ CHR ''?'' # q) = getDefaultFilename now fileUrl"
    if "CHR ''/'' \<notin> set q"
    using that by (simp add: getDefaultFilename_def baseFilename_query)
  have c3: "getDefaultFilename now (dir @ CHR ''/'' # name) =
      (if HasSuffix (ToLower name) ''.pdf'' then name else name @ ''.pdf'')"
    if a: "name \<noteq> [] \<and> name \<noteq> ''.pdf'' \<and> CHR ''/'' \<notin> set name \<and> CHR ''?'' \<notin> set name \<and>
      CHR ''%'' \<notin> set name \<and> CHR ''_'' \<notin> set name"
  proof -
    let ?f = "if HasSuffix (ToLower name) ''.pdf'' then name else name @ ''.pdf''"
    from a have "baseFilename now (dir @ CHR ''/'' # name) = ?f"
      by (intro baseFilename_plain) simp_all
    moreover from a have "CHR ''_'' \<notin> set ?f" by auto
    ultimately show ?thesis
      by (simp add: getDefaultFilename_def stripNumbers_def)
  qed
  have c4: "\<exists>stem x.
         baseFilename now fileUrl = stem @ x \<and> pdf_ext x \<and>
         getDefaultFilename now fileUrl =
           Join (filter keepItem (Split stem (CHR ''_''))) ''_'' @ x \<and>
         (\<forall>i\<in>set (filter keepItem (Split stem (CHR ''_''))). i \<noteq> [] \<and> ParseInt i = None) \<and>
         (\<forall>i\<in>set (Split stem (CHR ''_'')). list_all is_digit i \<and> length i \<le> 18 \<longrightarrow>
            i \<notin> set (filter keepItem (Split stem (CHR ''_''))))"
    if u: "CHR ''_'' \<in> set (baseFilename now fileUrl)"
  proof -
    from u b pdf_ext_facts(4) [OF x] have "CHR ''_'' \<in> set stem" by simp
    then have r: "getDefaultFilename now fileUrl =
        Join (filter keepItem (Split stem (CHR ''_''))) ''_'' @ x"
      unfolding g sn by simp
    have k: "\<forall>i\<in>set (filter keepItem (Split stem (CHR ''_''))). i \<noteq> [] \<and> ParseInt i = None"
      by (simp add: keepItem_def)
    have d: "\<not> keepItem i" if "list_all is_digit i \<and> length i \<le> 18" for i
    proof (cases "i = []")
      case True
      then show ?thesis by (simp add: keepItem_def)
    next
      case False
      with that have "ParseInt i = Some (dec_value i)" by (intro ParseInt_digits) simp_all
      then show ?thesis by (simp add: keepItem_def)
    qed
    from b x r k d show ?thesis by auto
  qed
  from c1 c2 c3 c4 show ?thesis by blast
qed

theorem default_filename_witness:
  "getDefaultFilename 1700000000 ''https://example.com/test.pdf'' = ''test.pdf'' \<and>
   getDefaultFilename 1700000000 ''https://example.com/test.pdf?param=value'' = ''test.pdf'' \<and>
   getDefaultFilename 1700000000 ''https://example.com/test'' = ''test.pdf'' \<and>
   getDefaultFilename 1700000000 ''https://example.com/2024_report_07.PDF'' = ''report.PDF'' \<and>
   HasSuffix (ToLower (getDefaultFilename 1700000000 ''https://example.com/2024_report_07.PDF''))
     ''.pdf'' \<and>
   (\<exists>stem x.
      baseFilename 1700000000 ''https://example.com/2024_report_07.PDF'' = stem @ x \<and>
      pdf_ext x \<and>
      getDefaultFilename 1700000000 ''https://example.com/2024_report_07.PDF'' =
        Join (filter keepItem (Split stem (CHR ''_''))) ''_'' @ x)"
proof -
  note t = default_filename [of 1700000000 "''https://example.com/test.pdf''" "''param=value''"
      "''test''" "''https://example.com''"]
  note u = default_filename [of 1700000000 "''https://example.com/2024_report_07.PDF''" "[]"
      "''test.pdf''" "''https://example.com''"]
  have h1: "CHR ''/'' \<notin> set ''param=value''" by simp
  have h2: "''test'' \<noteq> [] \<and> ''test'' \<noteq> ''.pdf'' \<and> CHR ''/'' \<notin> set ''test'' \<and>
      CHR ''?'' \<notin> set ''test'' \<and> CHR ''%'' \<notin> set ''test'' \<and> CHR ''_'' \<notin> set ''test''"
    by simp
  have h3: "''test.pdf'' \<noteq> [] \<and> ''test.pdf'' \<noteq> ''.pdf'' \<and> CHR ''/'' \<notin> set ''test.pdf'' \<and>
      CHR ''?'' \<notin> set ''test.pdf'' \<and> CHR ''%'' \<notin> set ''test.pdf'' \<and>
      CHR ''_'' \<notin> set ''test.pdf''"
    by simp
  have v: "\<not> HasSuffix (ToLower ''test'') ''.pdf''" "HasSuffix (ToLower ''test.pdf'') ''.pdf''"
    "getDefaultFilename 1700000000 ''https://example.com/2024_report_07.PDF'' = ''report.PDF''"
    by code_simp+
  from t h2 v(1) have a: "getDefaultFilename 1700000000 ''https://example.com/test'' = ''test.pdf''"
    by simp
  from u h3 v(2) have b:
    "getDefaultFilename 1700000000 ''https://example.com/test.pdf'' = ''test.pdf''"
    by simp
  from t h1 b have c:
    "getDefaultFilename 1700000000 ''https://example.com/test.pdf?param=value'' = ''test.pdf''"
    by simp
  from u have d:
    "HasSuffix (ToLower (getDefaultFilename 1700000000
       ''https://example.com/2024_report_07.PDF'')) ''.pdf''"
    by (rule conjunct1)
  have h4: "CHR ''_'' \<in> set (baseFilename 1700000000 ''https://example.com/2024_report_07.PDF'')"
    by code_simp
  from u h4 have e: "\<exists>stem x.
      baseFilename 1700000000 ''https://example.com/2024_report_07.PDF'' = stem @ x \<and>
      pdf_ext x \<and>
      getDefaultFilename 1700000000 ''https://example.com/2024_report_07.PDF'' =
        Join (filter keepItem (Split stem (CHR ''_''))) ''_'' @ x"
    by blast
  from b c a v(3) d e show ?thesis by (intro conjI)
qed

theorem long_number_kept_counterexample:
  "list_all is_digit ''99999999999999999999'' \<and>
   Split ''a_99999999999999999999'' (CHR ''_'') = [''a'', ''99999999999999999999''] \<and>
   getDefaultFilename 1700000000 ''https://example.com/a_99999999999999999999.pdf'' =
     ''a_99999999999999999999.pdf''"
  by code_simp

text \<open>
  The name that stands in for an empty one is built with the Unix time and then goes
  through the same removal of numeric items, which takes the time out again.
\<close>

lemma empty_basename_example:
  "baseFilename 1700000000 ''https://example.com/'' = ''download_1700000000.pdf'' \<and>
   getDefaultFilename 1700000000 ''https://example.com/'' = ''download.pdf''"
  by code_simp

end
